theory Spec2Isabelle
  imports Main "HOL-Library.AList" "HOL-Library.Char_ord" "HOL-Library.List_Lexorder"
    "HOL-Library.Multiset"
begin

section \<open>Strings and the library functions the program calls\<close>

text \<open>
  A Go string is a sequence of bytes; it is modelled as \<open>string\<close>, a list of 8-bit
  characters. The environment-variable names the program converts are ASCII identifiers.
  The library functions below (\<open>strings.HasPrefix\<close>, \<open>strings.ReplaceAll\<close>,
  \<open>strings.Split\<close>, \<open>strings.ToLower\<close>, the regular expression of \<open>ConvertKey\<close>)
  are modelled byte by byte, which is what Go computes on ASCII text: a byte from
  \<open>0x80\<close> on is treated as one character that is no underscore and has no lower case.
  Only the evaluations of \<open>ConvertKey\<close> on ASCII names look into these functions; the
  general properties of \<open>BuildProperties\<close> hold for any conversion of names to keys.
\<close>

definition underscore :: char where
  "underscore = CHR ''_''"

definition newline :: char where
  "newline = CHR 0x0A"

text \<open>\<open>strings.HasPrefix(s, prefix)\<close>: \<open>len(s) >= len(prefix) && s[:len(prefix)] == prefix\<close>.\<close>

definition HasPrefix :: "string \<Rightarrow> string \<Rightarrow> bool" where
  "HasPrefix s p = (length p \<le> length s \<and> take (length p) s = p)"

text \<open>
  \<open>strings.ReplaceAll(s, old, new)\<close>: the non-overlapping occurrences of \<open>old\<close> are
  replaced from left to right. With an empty \<open>old\<close> Go inserts \<open>new\<close> before every
  character and at the end; the program never does that.
\<close>

function ReplaceAll :: "string \<Rightarrow> string \<Rightarrow> string \<Rightarrow> string" where
  "ReplaceAll [] old new = (if old = [] then new else [])"
| "ReplaceAll (c # cs) old new =
     (if old = [] then new @ c # ReplaceAll cs old new
      else if HasPrefix (c # cs) old then new @ ReplaceAll (drop (length old) (c # cs)) old new
      else c # ReplaceAll cs old new)"
  by pat_completeness auto
termination
  by (relation "measure (\<lambda>(s, old, new). length s)") auto

text \<open>
  \<open>strings.ToLower\<close> on ASCII: the letters \<open>A\<close> to \<open>Z\<close> are moved to \<open>a\<close> to \<open>z\<close>.
\<close>

definition toLowerByte :: "char \<Rightarrow> char" where
  "toLowerByte c =
     (if CHR ''A'' \<le> c \<and> c \<le> CHR ''Z'' then char_of (of_char c + (32::nat)) else c)"

definition ToLower :: "string \<Rightarrow> string" where
  "ToLower s = map toLowerByte s"

section \<open>ConvertKey\<close>

text \<open>
  \<open>replaceUnderscores\<close> replaces every underscore of its argument by a dot.
\<close>

definition replaceUnderscores :: "string \<Rightarrow> string" where
  "replaceUnderscores s = ReplaceAll s ''_'' ''.''"

text \<open>
  \<open>regexp.MustCompile("[^_]_[^_]").ReplaceAllStringFunc(key, repl)\<close>: the expression
  matches three characters, an underscore between two characters that are no underscores.
  The matches are found from left to right and do not overlap: after a match the search
  goes on behind its third character. Each match is replaced by \<open>repl\<close> of the match.
\<close>

fun ReplaceAllStringFunc :: "string \<Rightarrow> (string \<Rightarrow> string) \<Rightarrow> string" where
  "ReplaceAllStringFunc (a # b # c # rest) repl =
     (if a \<noteq> underscore \<and> b = underscore \<and> c \<noteq> underscore
      then repl [a, b, c] @ ReplaceAllStringFunc rest repl
      else a # ReplaceAllStringFunc (b # c # rest) repl)"
| "ReplaceAllStringFunc s repl = s"

definition ConvertKey :: "string \<Rightarrow> string" where
  "ConvertKey key =
     (let singleReplaced = ReplaceAllStringFunc key replaceUnderscores;
          singleTripleReplaced = ReplaceAll singleReplaced ''___'' ''-''
      in ToLower (ReplaceAll singleTripleReplaced ''__'' ''_''))"

section \<open>Maps, slices and panics\<close>

text \<open>
  A Go \<open>map[string]T\<close> is modelled as the list of its entries, in the order in which a
  \<open>range\<close> statement visits them; the keys of a map are distinct (\<open>wf_map\<close>). Go fixes
  no order for \<open>range\<close> over a map, so every list with the same entries stands for the
  same map. \<open>m[k]\<close> reads with \<open>map_of\<close>, \<open>m[k] = v\<close> writes with \<open>AList.update\<close>.
\<close>

type_synonym gomap = "(string \<times> string) list"

definition wf_map :: "(string \<times> 'v) list \<Rightarrow> bool" where
  "wf_map m = distinct (map fst m)"

text \<open>\<open>config[n]\<close> as an expression: the value stored, or the empty string.\<close>

definition index_map :: "gomap \<Rightarrow> string \<Rightarrow> string" where
  "index_map m k = (case map_of m k of Some v \<Rightarrow> v | None \<Rightarrow> [])"

text \<open>
  A panic of the program: the run-time panic of a slice expression whose bound is out of
  range, and \<open>panic(err)\<close> of \<open>writeConfig\<close> with the error of the writer.
\<close>

datatype panic = SliceBoundsOutOfRange | WriteError

text \<open>
  \<open>strings.Split(s, sep)\<close>: the pieces of \<open>s\<close> between the non-overlapping occurrences
  of \<open>sep\<close>, found from left to right; a string without \<open>sep\<close> gives the one piece \<open>s\<close>.
  With the empty separator the string is split into its characters.
\<close>

function splitFrom :: "string \<Rightarrow> string \<Rightarrow> string \<Rightarrow> string list" where
  "splitFrom sep cur [] = [cur]"
| "splitFrom sep cur (c # cs) =
     (if sep \<noteq> [] \<and> HasPrefix (c # cs) sep
      then cur # splitFrom sep [] (drop (length sep) (c # cs))
      else splitFrom sep (cur @ [c]) cs)"
  by pat_completeness auto
termination
  by (relation "measure (\<lambda>(sep, cur, s). length s)") auto

definition Split :: "string \<Rightarrow> string \<Rightarrow> string list" where
  "Split s sep = (if sep = [] then map (\<lambda>c. [c]) s else splitFrom sep [] s)"

section \<open>The helpers of the program\<close>

fun Contains :: "string list \<Rightarrow> string \<Rightarrow> bool" where
  "Contains [] element = False"
| "Contains (v # slice) element = (if v = element then True else Contains slice element)"

text \<open>
  \<open>ListToMap\<close>: every entry is split at \<open>=\<close>; an entry of exactly two parts is stored,
  a later entry overwriting an earlier one with the same key.
\<close>

definition ListToMap_step :: "string \<Rightarrow> gomap \<Rightarrow> gomap" where
  "ListToMap_step l m =
     (let parts = Split l ''=''
      in if length parts = 2 then AList.update (parts ! 0) (parts ! 1) m else m)"

definition ListToMap :: "string list \<Rightarrow> gomap" where
  "ListToMap kvList = fold ListToMap_step kvList []"

definition KvStringToMap :: "string \<Rightarrow> string \<Rightarrow> gomap" where
  "KvStringToMap kvString sep = ListToMap (Split kvString sep)"

definition splitToMapDefaults :: "string \<Rightarrow> string \<Rightarrow> string \<Rightarrow> gomap" where
  "splitToMapDefaults separator defaultValues val =
     fold (\<lambda>(k, v) values. AList.update k v values)
       (KvStringToMap val separator) (KvStringToMap defaultValues separator)"

text \<open>
  \<open>GetEnvironment\<close>: \<open>environ\<close> is the result of \<open>os.Environ()\<close>, the strings
  \<open>name=value\<close> of the process environment.
\<close>

definition GetEnvironment :: "string list \<Rightarrow> gomap" where
  "GetEnvironment environ = ListToMap environ"

section \<open>BuildProperties\<close>

record ConfigSpec =
  Prefixes :: "(string \<times> bool) list"
  Excludes :: "string list"
  Renamed :: gomap
  Defaults :: gomap

text \<open>
  The effective key of a variable for one prefix. The slice expression
  \<open>envKey[len(prefix)+1:]\<close> panics when its lower bound is beyond the length of \<open>envKey\<close>.
\<close>

definition effectiveKey :: "string \<Rightarrow> string \<Rightarrow> bool \<Rightarrow> panic + string" where
  "effectiveKey envKey pre keep =
     (if keep then Inr envKey
      else if length envKey < length pre + 1 then Inl SliceBoundsOutOfRange
      else Inr (drop (length pre + 1) envKey))"

text \<open>The inner loop: \<open>for prefix, keep := range spec.Prefixes\<close>.\<close>

fun prefixLoop :: "(string \<times> bool) list \<Rightarrow> string \<Rightarrow> string \<Rightarrow> gomap \<Rightarrow> panic + gomap" where
  "prefixLoop [] envKey envValue config = Inr config"
| "prefixLoop ((pre, keep) # ps) envKey envValue config =
     (if HasPrefix envKey pre then
        (case effectiveKey envKey pre keep of
           Inl e \<Rightarrow> Inl e
         | Inr k \<Rightarrow> prefixLoop ps envKey envValue (AList.update (ConvertKey k) envValue config))
      else prefixLoop ps envKey envValue config)"

text \<open>The body of the outer loop, for one variable of the environment.\<close>

definition envStep :: "ConfigSpec \<Rightarrow> string \<Rightarrow> string \<Rightarrow> gomap \<Rightarrow> panic + gomap" where
  "envStep spec envKey envValue config =
     (case map_of (Renamed spec) envKey of
        Some newKey \<Rightarrow> Inr (AList.update newKey envValue config)
      | None \<Rightarrow>
          if \<not> Contains (Excludes spec) envKey
          then prefixLoop (Prefixes spec) envKey envValue config
          else Inr config)"

text \<open>The outer loop: \<open>for envKey, envValue := range environment\<close>.\<close>

fun envLoop :: "ConfigSpec \<Rightarrow> gomap \<Rightarrow> gomap \<Rightarrow> panic + gomap" where
  "envLoop spec [] config = Inr config"
| "envLoop spec ((envKey, envValue) # env) config =
     (case envStep spec envKey envValue config of
        Inl e \<Rightarrow> Inl e
      | Inr config' \<Rightarrow> envLoop spec env config')"

definition BuildProperties :: "ConfigSpec \<Rightarrow> gomap \<Rightarrow> panic + gomap" where
  "BuildProperties spec environment =
     envLoop spec environment
       (fold (\<lambda>(key, val) config. AList.update key val config) (Defaults spec) [])"

section \<open>writeConfig\<close>

text \<open>
  An \<open>io.Writer\<close> is a state \<open>'w\<close> with its \<open>Write\<close> method, which returns the new state
  or fails. \<open>bufWrite\<close> is the writer that appends to a buffer and never fails.
  \<open>now\<close> is the text of \<open>time.Now().String()\<close>.
\<close>

type_synonym 'w Writer = "'w \<Rightarrow> string \<Rightarrow> panic + 'w"

definition bufWrite :: "string Writer" where
  "bufWrite w s = Inr (w @ s)"

definition formatHeritage :: "string \<Rightarrow> string" where
  "formatHeritage now = ''# created by 'ub' from environment variables on '' @ now"

text \<open>The second loop of \<open>writeConfig\<close>: one \<open>Fprintf\<close> of \<open>"%s=%s\n"\<close> for each name.\<close>

fun writeNames :: "'w Writer \<Rightarrow> gomap \<Rightarrow> string list \<Rightarrow> 'w \<Rightarrow> panic + 'w" where
  "writeNames wr config [] w = Inr w"
| "writeNames wr config (n # ns) w =
     (case wr w (n @ ''='' @ index_map config n @ [newline]) of
        Inl e \<Rightarrow> Inl e
      | Inr w' \<Rightarrow> writeNames wr config ns w')"

definition writeConfig :: "'w Writer \<Rightarrow> string \<Rightarrow> 'w \<Rightarrow> gomap \<Rightarrow> panic + 'w" where
  "writeConfig wr now w config =
     (case wr w (formatHeritage now @ [newline]) of
        Inl e \<Rightarrow> Inl e
      | Inr w' \<Rightarrow>
          (let sortedNames = sort (map fst config)
           in writeNames wr config sortedNames w'))"

section \<open>The entry points\<close>

text \<open>
  \<open>visit\<close> is the order in which the \<open>range\<close> of \<open>BuildProperties\<close> visits the map that
  \<open>GetEnvironment\<close> returns.
\<close>

definition renderConfig ::
  "'w Writer \<Rightarrow> string \<Rightarrow> string list \<Rightarrow> (gomap \<Rightarrow> gomap) \<Rightarrow> 'w \<Rightarrow> ConfigSpec \<Rightarrow> panic + 'w" where
  "renderConfig wr now environ visit w configSpec =
     (case BuildProperties configSpec (visit (GetEnvironment environ)) of
        Inl e \<Rightarrow> Inl e
      | Inr config \<Rightarrow> writeConfig wr now w config)"

definition renderConfigViaPrefix ::
  "'w Writer \<Rightarrow> string \<Rightarrow> string list \<Rightarrow> (gomap \<Rightarrow> gomap) \<Rightarrow> 'w \<Rightarrow> string \<Rightarrow> panic + 'w" where
  "renderConfigViaPrefix wr now environ visit w envVarPrefix =
     (let spec = \<lparr>Prefixes = [(envVarPrefix, False)], Excludes = [],
                  Renamed = [], Defaults = []\<rparr>
      in case BuildProperties spec (visit (GetEnvironment environ)) of
           Inl e \<Rightarrow> Inl e
         | Inr config \<Rightarrow> writeConfig wr now w config)"

section \<open>Notions used to state the properties\<close>

text \<open>
  Two lists stand for the same Go map when both have distinct keys and hold the same
  entries: they differ in the order of \<open>range\<close> only.
\<close>

definition same_map :: "(string \<times> 'v) list \<Rightarrow> (string \<times> 'v) list \<Rightarrow> bool" where
  "same_map a b = (wf_map a \<and> wf_map b \<and> set a = set b)"

text \<open>
  The keys that the body of the outer loop writes for a variable: the keys of the
  configuration that the body makes of the empty one.
\<close>

definition writtenKeys :: "ConfigSpec \<Rightarrow> string \<Rightarrow> string set" where
  "writtenKeys spec envKey =
     (case envStep spec envKey [] [] of Inl e \<Rightarrow> {} | Inr config \<Rightarrow> fst ` set config)"

text \<open>
  The same in closed form, for the proofs: the keys of the prefixes that match a name, and
  whether one of them makes the slice expression panic.
\<close>

definition matchedKeys :: "(string \<times> bool) list \<Rightarrow> string \<Rightarrow> string set" where
  "matchedKeys ps k =
     set (map (\<lambda>(p, keep). ConvertKey (if keep then k else drop (length p + 1) k))
            (filter (\<lambda>(p, keep). HasPrefix k p) ps))"

definition slicePanics :: "(string \<times> bool) list \<Rightarrow> string \<Rightarrow> bool" where
  "slicePanics ps k =
     (\<exists>(p, keep)\<in>set ps. HasPrefix k p \<and> \<not> keep \<and> length k < length p + 1)"

definition stepKeys :: "ConfigSpec \<Rightarrow> string \<Rightarrow> string set" where
  "stepKeys spec k =
     (case map_of (Renamed spec) k of
        Some newKey \<Rightarrow> {newKey}
      | None \<Rightarrow> if Contains (Excludes spec) k then {} else matchedKeys (Prefixes spec) k)"

definition stepPanics :: "ConfigSpec \<Rightarrow> string \<Rightarrow> bool" where
  "stepPanics spec k =
     (map_of (Renamed spec) k = None \<and> \<not> Contains (Excludes spec) k
      \<and> slicePanics (Prefixes spec) k)"

text \<open>
  What the body of the outer loop does to the mapping when it does not panic: the value of
  the variable is stored under every key the body writes.
\<close>

definition overwrite ::
  "ConfigSpec \<Rightarrow> string \<times> string \<Rightarrow> (string \<rightharpoonup> string) \<Rightarrow> (string \<rightharpoonup> string)" where
  "overwrite spec = (\<lambda>(k, v) m x. if x \<in> stepKeys spec k then Some v else m x)"

section \<open>Splitting at one character\<close>

lemma splitFrom_no_sep: "c \<notin> set s \<Longrightarrow> splitFrom [c] cur s = [cur @ s]"
  by (induction s arbitrary: cur) (auto simp add: HasPrefix_def)

lemma splitFrom_at_sep:
  "c \<notin> set a \<Longrightarrow> splitFrom [c] cur (a @ c # rest) = (cur @ a) # splitFrom [c] [] rest"
  by (induction a arbitrary: cur) (auto simp add: HasPrefix_def)

lemma length_splitFrom: "length (splitFrom [c] cur s) = Suc (count_list s c)"
  by (induction s arbitrary: cur) (auto simp add: HasPrefix_def)

lemma Split_single: "Split s [c] = splitFrom [c] [] s"
  by (simp add: Split_def)

lemma length_Split_single: "length (Split s [c]) = Suc (count_list s c)"
  by (simp add: Split_single length_splitFrom)

lemma Split_two_parts:
  assumes "c \<notin> set a" and "c \<notin> set b"
  shows "Split (a @ c # b) [c] = [a, b]"
  using assms by (simp add: Split_single splitFrom_at_sep splitFrom_no_sep)

lemma count_one_decompose:
  assumes "count_list l c = 1"
  shows "c \<notin> set (takeWhile (\<lambda>x. x \<noteq> c) l)"
    and "c \<notin> set (tl (dropWhile (\<lambda>x. x \<noteq> c) l))"
    and "l = takeWhile (\<lambda>x. x \<noteq> c) l @ c # tl (dropWhile (\<lambda>x. x \<noteq> c) l)"
proof -
  show "c \<notin> set (takeWhile (\<lambda>x. x \<noteq> c) l)"
    by (auto dest: set_takeWhileD)
  from assms have "c \<in> set l"
    by (metis count_list_0_iff zero_neq_one)
  then obtain b where d: "dropWhile (\<lambda>x. x \<noteq> c) l = c # b"
    by (metis (mono_tags, lifting) dropWhile_eq_Nil_conv hd_dropWhile list.collapse)
  then show l: "l = takeWhile (\<lambda>x. x \<noteq> c) l @ c # tl (dropWhile (\<lambda>x. x \<noteq> c) l)"
    by (metis list.sel(3) takeWhile_dropWhile_id)
  have "count_list l c = count_list (takeWhile (\<lambda>x. x \<noteq> c) l) c + count_list (c # b) c"
    by (metis count_list_append d takeWhile_dropWhile_id)
  with assms have "count_list b c = 0" by simp
  then show "c \<notin> set (tl (dropWhile (\<lambda>x. x \<noteq> c) l))"
    by (simp add: d count_list_0_iff)
qed

lemma ListToMap_step_count:
  "ListToMap_step l m =
     (if count_list l CHR ''='' = 1
      then AList.update (takeWhile (\<lambda>x. x \<noteq> CHR ''='') l)
             (tl (dropWhile (\<lambda>x. x \<noteq> CHR ''='') l)) m
      else m)"
proof (cases "count_list l CHR ''='' = 1")
  case True
  from count_one_decompose [OF True]
  have "Split l ''='' = [takeWhile (\<lambda>x. x \<noteq> CHR ''='') l, tl (dropWhile (\<lambda>x. x \<noteq> CHR ''='') l)]"
    by (metis Split_two_parts)
  with True show ?thesis by (simp add: ListToMap_step_def)
next
  case False
  then show ?thesis by (simp add: ListToMap_step_def length_Split_single)
qed


section \<open>The entries that ListToMap keeps\<close>

lemma fold_ListToMap_step_filter:
  "fold ListToMap_step kvList m =
     fold ListToMap_step (filter (\<lambda>l. count_list l CHR ''='' = 1) kvList) m"
  by (induction kvList arbitrary: m) (simp_all add: ListToMap_step_count)

lemma fold_ListToMap_step_cong:
  "fold ListToMap_step kvList m =
     fold (\<lambda>l m. if count_list l CHR ''='' = 1
                  then AList.update (takeWhile (\<lambda>x. x \<noteq> CHR ''='') l)
                         (tl (dropWhile (\<lambda>x. x \<noteq> CHR ''='') l)) m
                  else m) kvList m"
  by (rule arg_cong [where f = "\<lambda>f. fold f kvList m"]) (rule ext, rule ext, rule ListToMap_step_count)

lemma distinct_ListToMap_step:
  "distinct (map fst m) \<Longrightarrow> distinct (map fst (ListToMap_step l m))"
  by (simp add: ListToMap_step_def Let_def distinct_update)

lemma distinct_fold_ListToMap_step:
  "distinct (map fst m) \<Longrightarrow> distinct (map fst (fold ListToMap_step kvList m))"
  by (induction kvList arbitrary: m) (simp_all add: distinct_ListToMap_step)

lemma distinct_ListToMap: "distinct (map fst (ListToMap kvList))"
  by (simp add: ListToMap_def distinct_fold_ListToMap_step)

lemma count_two_eq: "count_list (name @ ''='' @ v1 @ ''='' @ v2) CHR ''='' \<noteq> 1"
  by (simp add: count_list_append)

lemma ListToMap_drop_entry:
  "count_list l CHR ''='' \<noteq> 1 \<Longrightarrow> ListToMap (xs @ l # ys) = ListToMap (xs @ ys)"
  by (simp add: ListToMap_def ListToMap_step_count)


lemma map_of_fold_update:
  "map_of (fold (\<lambda>(k, v) values. AList.update k v values) xs acc) = map_of acc ++ map_of (rev xs)"
  by (induction xs arbitrary: acc) (auto simp add: update_conv' map_add_def fun_eq_iff split: option.splits)

lemma map_of_rev_distinct: "distinct (map fst xs) \<Longrightarrow> map_of (rev xs) = map_of xs"
  by (subst map_of_inject_set) (simp_all add: rev_map [symmetric])

section \<open>What writeConfig writes into a buffer\<close>

lemma writeNames_bufWrite:
  "writeNames bufWrite config ns w =
     Inr (w @ concat (map (\<lambda>n. n @ ''='' @ index_map config n @ [newline]) ns))"
  by (induction ns arbitrary: w) (simp_all add: bufWrite_def)


lemma writeConfig_bufWrite:
  "writeConfig bufWrite now w config =
     Inr (w @ formatHeritage now @ [newline]
            @ concat (map (\<lambda>n. n @ ''='' @ index_map config n @ [newline]) (sort (map fst config))))"
  by (simp add: writeConfig_def bufWrite_def writeNames_bufWrite)

section \<open>Reading the written lines back\<close>

lemma splitFrom_lines:
  "\<forall>l\<in>set ls. c \<notin> set l \<Longrightarrow>
     splitFrom [c] [] (concat (map (\<lambda>l. l @ [c]) ls)) = ls @ [[]]"
  by (induction ls) (simp_all add: splitFrom_at_sep)

lemma ListToMap_step_pair:
  "CHR ''='' \<notin> set k \<Longrightarrow> CHR ''='' \<notin> set v \<Longrightarrow>
     ListToMap_step (k @ CHR ''='' # v) m = AList.update k v m"
  using Split_two_parts [of "CHR ''=''" k v] by (simp add: ListToMap_step_def)

lemma ListToMap_step_Nil: "ListToMap_step [] m = m"
  by (simp add: ListToMap_step_def Split_def)

lemma fold_ListToMap_step_pairs:
  "\<forall>(k, v)\<in>set kvs. CHR ''='' \<notin> set k \<and> CHR ''='' \<notin> set v \<Longrightarrow>
     fold ListToMap_step (map (\<lambda>(k, v). k @ ''='' @ v) kvs) m
       = fold (\<lambda>(k, v) values. AList.update k v values) kvs m"
  by (induction kvs arbitrary: m) (auto simp add: ListToMap_step_pair)

lemma newline_notin_formatHeritage:
  "newline \<notin> set now \<Longrightarrow> newline \<notin> set (formatHeritage now)"
  by (simp add: formatHeritage_def newline_def)

lemma map_of_sorted_entries:
  "map_of (map (\<lambda>n. (n, index_map config n)) (sort (map fst config))) = map_of config"
proof
  fix x
  show "map_of (map (\<lambda>n. (n, index_map config n)) (sort (map fst config))) x = map_of config x"
  proof (cases "x \<in> fst ` set config")
    case True
    then obtain v where "map_of config x = Some v"
      by (metis domD dom_map_of_conv_image_fst)
    with True show ?thesis
      by (simp add: map_of_map_restrict index_map_def)
  next
    case False
    then have "map_of config x = None"
      by (simp add: map_of_eq_None_iff)
    with False show ?thesis
      by (simp add: map_of_map_restrict)
  qed
qed

lemma parse_written:
  assumes cfg: "\<forall>(k, v)\<in>set config. CHR ''='' \<notin> set k \<and> newline \<notin> set k
                  \<and> CHR ''='' \<notin> set v \<and> newline \<notin> set v"
    and now: "newline \<notin> set now"
    and wf: "distinct (map fst config)"
  shows "\<exists>out. writeConfig bufWrite now [] config = Inr out
           \<and> map_of (ListToMap (tl (Split out [newline]))) = map_of config"
proof -
  define ks where "ks = sort (map fst config)"
  define kvs where "kvs = map (\<lambda>n. (n, index_map config n)) ks"
  define lines where "lines = map (\<lambda>(k, v). k @ CHR ''='' # v) kvs"
  define out where "out = formatHeritage now @ newline # concat (map (\<lambda>l. l @ [newline]) lines)"
  have in_cfg: "(n, index_map config n) \<in> set config" if "n \<in> set ks" for n
  proof -
    from that obtain v where "(n, v) \<in> set config" by (auto simp add: ks_def)
    with wf show ?thesis by (simp add: index_map_def)
  qed
  have kvs_cfg: "set kvs \<subseteq> set config"
    using in_cfg by (auto simp add: kvs_def)
  have out: "writeConfig bufWrite now [] config = Inr out"
    by (simp add: writeConfig_bufWrite out_def lines_def kvs_def ks_def comp_def)
  have no_nl: "\<forall>l\<in>set lines. newline \<notin> set l"
  proof
    fix l assume "l \<in> set lines"
    then obtain k v where "(k, v) \<in> set kvs" and l: "l = k @ CHR ''='' # v"
      by (auto simp add: lines_def)
    with kvs_cfg cfg have "newline \<notin> set k \<and> newline \<notin> set v" by blast
    with l show "newline \<notin> set l" by (simp add: newline_def)
  qed
  have no_eq: "\<forall>(k, v)\<in>set kvs. CHR ''='' \<notin> set k \<and> CHR ''='' \<notin> set v"
    using cfg kvs_cfg by blast
  have "Split out [newline] = formatHeritage now # lines @ [[]]"
    unfolding out_def Split_single
    using splitFrom_at_sep [OF newline_notin_formatHeritage [OF now], of "[]"]
      splitFrom_lines [OF no_nl]
    by simp
  then have "ListToMap (tl (Split out [newline])) = fold ListToMap_step (lines @ [[]]) []"
    by (simp add: ListToMap_def)
  also have "\<dots> = fold (\<lambda>(k, v) values. AList.update k v values) kvs []"
    using fold_ListToMap_step_pairs [OF no_eq] by (simp add: ListToMap_step_Nil lines_def)
  finally have "map_of (ListToMap (tl (Split out [newline]))) = map_of (rev kvs)"
    by (simp add: map_of_fold_update)
  also have "\<dots> = map_of kvs"
    by (rule map_of_rev_distinct) (simp add: kvs_def ks_def comp_def wf)
  also have "\<dots> = map_of config"
    unfolding kvs_def ks_def by (rule map_of_sorted_entries)
  finally show ?thesis using out by blast
qed

section \<open>The loops of BuildProperties\<close>

lemma Contains_set: "Contains slice element \<longleftrightarrow> element \<in> set slice"
  by (induction slice) auto

lemma matchedKeys_Nil: "matchedKeys [] k = {}"
  by (simp add: matchedKeys_def)

lemma matchedKeys_Cons:
  "matchedKeys ((p, keep) # ps) k =
     (if HasPrefix k p
      then insert (ConvertKey (if keep then k else drop (length p + 1) k)) (matchedKeys ps k)
      else matchedKeys ps k)"
  by (simp add: matchedKeys_def)

lemma slicePanics_Nil: "\<not> slicePanics [] k"
  by (simp add: slicePanics_def)

lemma slicePanics_Cons:
  "slicePanics ((p, keep) # ps) k \<longleftrightarrow>
     (HasPrefix k p \<and> \<not> keep \<and> length k < length p + 1) \<or> slicePanics ps k"
  by (simp add: slicePanics_def)

lemma prefixLoop_Inl:
  "prefixLoop ps k v config = Inl e \<longleftrightarrow> e = SliceBoundsOutOfRange \<and> slicePanics ps k"
proof (induction ps arbitrary: config)
  case Nil
  then show ?case by (simp add: slicePanics_Nil)
next
  case (Cons a ps)
  obtain p keep where a: "a = (p, keep)" by (cases a)
  show ?case
    unfolding a by (auto simp add: slicePanics_Cons effectiveKey_def Cons.IH)
qed

lemma prefixLoop_Inr:
  "prefixLoop ps k v config = Inr c \<Longrightarrow>
     map_of c = (\<lambda>x. if x \<in> matchedKeys ps k then Some v else map_of config x)
     \<and> fst ` set c = fst ` set config \<union> matchedKeys ps k"
proof (induction ps arbitrary: config)
  case Nil
  then show ?case by (auto simp add: matchedKeys_Nil)
next
  case (Cons a ps)
  obtain p keep where a: "a = (p, keep)" by (cases a)
  show ?case
  proof (cases "HasPrefix k p")
    case False
    with Cons.prems have "prefixLoop ps k v config = Inr c" by (simp add: a)
    from Cons.IH [OF this] False show ?thesis by (simp add: a matchedKeys_Cons)
  next
    case True
    let ?key = "ConvertKey (if keep then k else drop (length p + 1) k)"
    from Cons.prems True have "prefixLoop ps k v (AList.update ?key v config) = Inr c"
      by (auto simp add: a effectiveKey_def split: if_splits)
    from Cons.IH [OF this] True show ?thesis
      by (simp add: a matchedKeys_Cons update_conv' dom_update fun_eq_iff)
  qed
qed

lemma prefixLoop_distinct:
  "prefixLoop ps k v config = Inr c \<Longrightarrow> distinct (map fst config) \<Longrightarrow> distinct (map fst c)"
proof (induction ps arbitrary: config)
  case Nil
  then show ?case by simp
next
  case (Cons a ps)
  obtain p keep where a: "a = (p, keep)" by (cases a)
  from Cons.prems show ?case
    unfolding a
    by (auto simp add: effectiveKey_def distinct_update split: if_splits sum.splits
        intro: Cons.IH)
qed

lemma envStep_Inl:
  "envStep spec k v config = Inl e \<longleftrightarrow> e = SliceBoundsOutOfRange \<and> stepPanics spec k"
  by (auto simp add: envStep_def stepPanics_def prefixLoop_Inl split: option.splits)

lemma envStep_Inr:
  assumes "envStep spec k v config = Inr c"
  shows "map_of c = (\<lambda>x. if x \<in> stepKeys spec k then Some v else map_of config x)"
    and "fst ` set c = fst ` set config \<union> stepKeys spec k"
proof -
  show "map_of c = (\<lambda>x. if x \<in> stepKeys spec k then Some v else map_of config x)"
  proof (cases "map_of (Renamed spec) k")
    case (Some newKey)
    with assms show ?thesis
      by (auto simp add: envStep_def stepKeys_def update_conv' fun_eq_iff)
  next
    case None
    with assms show ?thesis
      by (auto simp add: envStep_def stepKeys_def dest: prefixLoop_Inr split: if_splits)
  qed
  show "fst ` set c = fst ` set config \<union> stepKeys spec k"
  proof (cases "map_of (Renamed spec) k")
    case (Some newKey)
    with assms have "c = AList.update newKey v config" by (simp add: envStep_def)
    with Some show ?thesis by (simp add: stepKeys_def dom_update)
  next
    case None
    show ?thesis
    proof (cases "Contains (Excludes spec) k")
      case True
      with None assms show ?thesis by (simp add: envStep_def stepKeys_def)
    next
      case False
      with None assms have "prefixLoop (Prefixes spec) k v config = Inr c"
        by (simp add: envStep_def)
      from prefixLoop_Inr [OF this] None False show ?thesis by (simp add: stepKeys_def)
    qed
  qed
qed

lemma envStep_distinct:
  "envStep spec k v config = Inr c \<Longrightarrow> distinct (map fst config) \<Longrightarrow> distinct (map fst c)"
  by (auto simp add: envStep_def distinct_update split: option.splits if_splits
      dest: prefixLoop_distinct)

lemma writtenKeys_stepKeys:
  "writtenKeys spec k = (if stepPanics spec k then {} else stepKeys spec k)"
proof (cases "envStep spec k [] []")
  case (Inl e)
  then have "stepPanics spec k" by (simp add: envStep_Inl)
  with Inl show ?thesis by (simp add: writtenKeys_def)
next
  case (Inr c)
  have "\<not> stepPanics spec k"
    using envStep_Inl [of spec k "[]" "[]" SliceBoundsOutOfRange] Inr by simp
  with Inr envStep_Inr(2) [OF Inr] show ?thesis by (simp add: writtenKeys_def)
qed

lemma envLoop_append:
  "envLoop spec (xs @ ys) config =
     (case envLoop spec xs config of Inl e \<Rightarrow> Inl e | Inr c \<Rightarrow> envLoop spec ys c)"
  by (induction xs arbitrary: config) (auto split: sum.splits)

lemma envLoop_Inl:
  "envLoop spec env config = Inl e \<longleftrightarrow>
     e = SliceBoundsOutOfRange \<and> (\<exists>(k, v)\<in>set env. stepPanics spec k)"
proof (induction env arbitrary: config)
  case Nil
  then show ?case by simp
next
  case (Cons a env)
  obtain k v where a: "a = (k, v)" by (cases a)
  show ?case
  proof (cases "envStep spec k v config")
    case (Inl e')
    then have "e' = SliceBoundsOutOfRange" and "stepPanics spec k"
      by (simp_all add: envStep_Inl)
    with Inl show ?thesis by (auto simp add: a)
  next
    case (Inr c)
    then have "\<not> stepPanics spec k"
      using envStep_Inl [of spec k v config SliceBoundsOutOfRange] by simp
    with Inr show ?thesis by (simp add: a Cons.IH)
  qed
qed

lemma envLoop_Inr:
  "envLoop spec env config = Inr c \<Longrightarrow> map_of c = fold (overwrite spec) env (map_of config)"
proof (induction env arbitrary: config)
  case Nil
  then show ?case by simp
next
  case (Cons a env)
  obtain k v where a: "a = (k, v)" by (cases a)
  from Cons.prems obtain c' where step: "envStep spec k v config = Inr c'"
    and rest: "envLoop spec env c' = Inr c"
    by (auto simp add: a split: sum.splits)
  from envStep_Inr(1) [OF step] have "map_of c' = overwrite spec a (map_of config)"
    by (simp add: overwrite_def a)
  with Cons.IH [OF rest] show ?case by simp
qed

lemma envLoop_distinct:
  "envLoop spec env config = Inr c \<Longrightarrow> distinct (map fst config) \<Longrightarrow> distinct (map fst c)"
proof (induction env arbitrary: config)
  case Nil
  then show ?case by simp
next
  case (Cons a env)
  obtain k v where a: "a = (k, v)" by (cases a)
  from Cons.prems show ?case
    by (auto simp add: a split: sum.splits dest: envStep_distinct intro: Cons.IH)
qed

lemma distinct_fold_update:
  "distinct (map fst acc) \<Longrightarrow>
     distinct (map fst (fold (\<lambda>(k, v) values. AList.update k v values) xs acc))"
  by (induction xs arbitrary: acc) (auto simp add: distinct_update)

lemma BuildProperties_distinct:
  "BuildProperties spec env = Inr config \<Longrightarrow> distinct (map fst config)"
  unfolding BuildProperties_def
  by (erule envLoop_distinct) (simp add: distinct_fold_update)

lemma overwrite_commute:
  assumes "stepKeys spec (fst a) \<inter> stepKeys spec (fst b) = {} \<or> a = b"
  shows "overwrite spec a \<circ> overwrite spec b = overwrite spec b \<circ> overwrite spec a"
  using assms by (cases a; cases b) (auto simp add: overwrite_def fun_eq_iff)

lemma matchedKeys_cong: "set ps = set ps' \<Longrightarrow> matchedKeys ps k = matchedKeys ps' k"
  by (simp add: matchedKeys_def)

lemma slicePanics_cong: "set ps = set ps' \<Longrightarrow> slicePanics ps k = slicePanics ps' k"
  by (simp add: slicePanics_def)

lemma stepKeys_cong:
  assumes "set (Prefixes s1) = set (Prefixes s2)"
    and "map_of (Renamed s1) = map_of (Renamed s2)"
    and "set (Excludes s1) = set (Excludes s2)"
  shows "stepKeys s1 k = stepKeys s2 k" and "stepPanics s1 k = stepPanics s2 k"
  using assms matchedKeys_cong [of "Prefixes s1" "Prefixes s2" k]
    slicePanics_cong [of "Prefixes s1" "Prefixes s2" k]
  by (simp_all add: stepKeys_def stepPanics_def Contains_set split: option.splits)

lemma same_map_map_of: "same_map a b \<Longrightarrow> map_of a = map_of b"
  by (simp add: same_map_def wf_map_def map_of_inject_set)

lemma same_map_mset: "same_map a b \<Longrightarrow> mset a = mset b"
  unfolding same_map_def wf_map_def
  by (metis distinct_map set_eq_iff_mset_eq_distinct)

lemma map_of_defaults:
  "wf_map ds \<Longrightarrow>
     map_of (fold (\<lambda>(key, val) config. AList.update key val config) ds []) = map_of ds"
  by (simp add: map_of_fold_update map_of_rev_distinct wf_map_def)

lemma envLoop_cases:
  obtains (panic) "\<exists>(k, v)\<in>set env. stepPanics spec k"
      and "envLoop spec env config = Inl SliceBoundsOutOfRange"
  | (ok) c where "\<not> (\<exists>(k, v)\<in>set env. stepPanics spec k)"
      and "envLoop spec env config = Inr c"
      and "map_of c = fold (overwrite spec) env (map_of config)"
proof (cases "envLoop spec env config")
  case (Inl e)
  with envLoop_Inl [of spec env config e] panic show ?thesis by simp
next
  case (Inr c)
  have "\<not> (\<exists>(k, v)\<in>set env. stepPanics spec k)"
    using envLoop_Inl [of spec env config SliceBoundsOutOfRange] Inr by simp
  with Inr envLoop_Inr [OF Inr] ok show ?thesis by simp
qed

lemma envStep_Renamed:
  "map_of (Renamed spec) name = Some newKey \<Longrightarrow>
     envStep spec name val config = Inr (AList.update newKey val config)"
  by (simp add: envStep_def)

lemma slicePanics_iff: "slicePanics ps k \<longleftrightarrow> (k, False) \<in> set ps"
proof
  assume "slicePanics ps k"
  then obtain p where p: "(p, False) \<in> set ps" and h: "HasPrefix k p"
    and l: "length k < length p + 1"
    by (auto simp add: slicePanics_def)
  from h l have "k = p" by (simp add: HasPrefix_def)
  with p show "(k, False) \<in> set ps" by simp
next
  assume "(k, False) \<in> set ps"
  then show "slicePanics ps k"
    by (auto simp add: slicePanics_def HasPrefix_def intro!: bexI [of _ "(k, False)"])
qed

lemma BuildProperties_panics_iff:
  "BuildProperties spec env = Inl e \<longleftrightarrow>
     e = SliceBoundsOutOfRange
     \<and> (\<exists>(k, v)\<in>set env. map_of (Renamed spec) k = None \<and> k \<notin> set (Excludes spec)
           \<and> (k, False) \<in> set (Prefixes spec))"
  by (simp add: BuildProperties_def envLoop_Inl stepPanics_def slicePanics_iff Contains_set)

lemma fold_overwrite_other:
  "\<forall>(k, v)\<in>set xs. x \<notin> stepKeys spec k \<Longrightarrow> fold (overwrite spec) xs m x = m x"
  by (induction xs arbitrary: m) (auto simp add: overwrite_def)

section \<open>ConvertKey on the documented examples\<close>

text \<open>
  C3: \<open>ConvertKey\<close> reproduces the six literal examples of the test suite exactly.
\<close>

theorem ConvertKey_examples:
  "ConvertKey ''KEY'' = ''key''
   \<and> ConvertKey ''KEY_FOO'' = ''key.foo''
   \<and> ConvertKey ''KEY__UNDERSCORE'' = ''key_underscore''
   \<and> ConvertKey ''KEY_WITH__UNDERSCORE_AND__MORE'' = ''key.with_underscore.and_more''
   \<and> ConvertKey ''KEY___DASH'' = ''key-dash''
   \<and> ConvertKey ''KEY_WITH___DASH_AND___MORE__UNDERSCORE''
       = ''key.with-dash.and-more_underscore''"
  by code_simp

text \<open>
  C2: every single underscore should become a dot, so that \<open>A_B_C\<close> maps to \<open>a.b.c\<close>.
  The regular expression consumes the character behind an underscore, and the matches do
  not overlap: the second underscore of \<open>A_B_C\<close> is never matched and stays. The code
  returns \<open>a.b_c\<close>.
\<close>

theorem ConvertKey_adjacent_single_underscores:
  "ConvertKey ''A_B_C'' = ''a.b_c'' \<and> ConvertKey ''A_B_C'' \<noteq> ''a.b.c''"
  by code_simp

section \<open>BuildProperties and the slice bound\<close>

text \<open>
  C1: \<open>BuildProperties\<close> should raise no error on a well-formed specification and
  environment. When a variable is named exactly like a prefix that is not kept, the lower
  bound \<open>len(prefix)+1\<close> of the slice is beyond the end of the name and the code panics.
\<close>

theorem BuildProperties_panics_when_name_is_prefix:
  "BuildProperties
     \<lparr>Prefixes = [(''KAFKA'', False)], Excludes = [], Renamed = [], Defaults = []\<rparr>
     [(''KAFKA'', ''x'')] = Inl SliceBoundsOutOfRange"
  by code_simp

section \<open>The prefix-only entry point\<close>

text \<open>
  C9: for every prefix and environment, \<open>renderConfigViaPrefix\<close> produces what
  \<open>renderConfig\<close> produces for the specification with the one prefix, not kept, and
  no excludes, renames or defaults: the same output, or the same panic.
\<close>

theorem renderConfigViaPrefix_is_renderConfig:
  "renderConfigViaPrefix wr now environ visit w envVarPrefix =
     renderConfig wr now environ visit w
       \<lparr>Prefixes = [(envVarPrefix, False)], Excludes = [], Renamed = [], Defaults = []\<rparr>"
  by (simp add: renderConfigViaPrefix_def renderConfig_def)

section \<open>Parsing lists of pairs\<close>

text \<open>
  C10: \<open>ListToMap\<close> keeps an entry only if it splits at \<open>=\<close> into exactly two parts,
  that is, if it holds exactly one \<open>=\<close>: the entry then stores the text behind the \<open>=\<close>
  under the text before it. Every other entry is dropped, one with two or more \<open>=\<close> like
  one with none. \<open>KvStringToMap\<close> (and with it \<open>splitToMapDefaults\<close>) and
  \<open>GetEnvironment\<close> inherit this: a variable \<open>name=v1=v2\<close>, whose value holds an \<open>=\<close>,
  leaves the snapshot as it is without it.
\<close>

theorem ListToMap_keeps_exactly_two_parts:
  "ListToMap kvList =
     fold (\<lambda>l m. if count_list l CHR ''='' = 1
                  then AList.update (takeWhile (\<lambda>x. x \<noteq> CHR ''='') l)
                         (tl (dropWhile (\<lambda>x. x \<noteq> CHR ''='') l)) m
                  else m) kvList []
   \<and> ListToMap kvList = ListToMap (filter (\<lambda>l. count_list l CHR ''='' = 1) kvList)
   \<and> KvStringToMap s sep = ListToMap (filter (\<lambda>l. count_list l CHR ''='' = 1) (Split s sep))
   \<and> map_of (splitToMapDefaults sep d v)
       = map_of (ListToMap (filter (\<lambda>l. count_list l CHR ''='' = 1) (Split d sep)))
         ++ map_of (ListToMap (filter (\<lambda>l. count_list l CHR ''='' = 1) (Split v sep)))
   \<and> ListToMap (before @ [name @ ''='' @ v1 @ ''='' @ v2] @ after) = ListToMap (before @ after)
   \<and> GetEnvironment (before @ [name @ ''='' @ v1 @ ''='' @ v2] @ after)
       = GetEnvironment (before @ after)"
proof -
  have drop: "ListToMap (before @ [name @ ''='' @ v1 @ ''='' @ v2] @ after)
                = ListToMap (before @ after)"
    using ListToMap_drop_entry [OF count_two_eq] by simp
  have filt: "ListToMap xs = ListToMap (filter (\<lambda>l. count_list l CHR ''='' = 1) xs)" for xs
    unfolding ListToMap_def by (rule fold_ListToMap_step_filter)
  have "map_of (splitToMapDefaults sep d v)
          = map_of (ListToMap (Split d sep)) ++ map_of (ListToMap (Split v sep))"
    by (simp add: splitToMapDefaults_def map_of_fold_update map_of_rev_distinct
        KvStringToMap_def distinct_ListToMap)
  then have both: "map_of (splitToMapDefaults sep d v)
       = map_of (ListToMap (filter (\<lambda>l. count_list l CHR ''='' = 1) (Split d sep)))
         ++ map_of (ListToMap (filter (\<lambda>l. count_list l CHR ''='' = 1) (Split v sep)))"
    using filt [of "Split d sep"] filt [of "Split v sep"] by simp
  have full: "ListToMap kvList =
     fold (\<lambda>l m. if count_list l CHR ''='' = 1
                  then AList.update (takeWhile (\<lambda>x. x \<noteq> CHR ''='') l)
                         (tl (dropWhile (\<lambda>x. x \<noteq> CHR ''='') l)) m
                  else m) kvList []"
    by (simp add: ListToMap_def fold_ListToMap_step_cong)
  have kv: "KvStringToMap s sep
              = ListToMap (filter (\<lambda>l. count_list l CHR ''='' = 1) (Split s sep))"
    using filt [of "Split s sep"] by (simp add: KvStringToMap_def)
  have env: "GetEnvironment (before @ [name @ ''='' @ v1 @ ''='' @ v2] @ after)
               = GetEnvironment (before @ after)"
    using drop by (simp add: GetEnvironment_def)
  from full filt [of kvList] kv both drop env show ?thesis
    by blast
qed


section \<open>The serialized properties\<close>



section \<open>The order of range and the result of BuildProperties\<close>

text \<open>
  C4, as the code has it: the code fixes no order for its two \<open>range\<close> loops. Two
  evaluations on the same specification and environment (the same maps, visited in any
  two orders, the prefixes as well as the variables) return the same mapping, or both
  panic, provided that no two different variables of the environment write the same key.
  The prefixes that match one variable all store the value of that variable, so a key
  that several of them compute needs no order among the prefixes; the body of the loop
  depends on the set of the prefixes only, so the order may also differ from one variable
  to the next.
\<close>

theorem BuildProperties_deterministic_without_collisions:
  assumes prefixes: "same_map (Prefixes spec1) (Prefixes spec2)"
    and excludes: "Excludes spec1 = Excludes spec2"
    and renamed: "same_map (Renamed spec1) (Renamed spec2)"
    and defaults: "same_map (Defaults spec1) (Defaults spec2)"
    and env: "same_map env1 env2"
    and no_collision:
      "\<forall>(k1, v1)\<in>set env1. \<forall>(k2, v2)\<in>set env1.
         k1 \<noteq> k2 \<longrightarrow> writtenKeys spec1 k1 \<inter> writtenKeys spec1 k2 = {}"
  shows "map_sum id map_of (BuildProperties spec1 env1)
           = map_sum id map_of (BuildProperties spec2 env2)"
proof -
  let ?init1 = "fold (\<lambda>(key, val) config. AList.update key val config) (Defaults spec1) []"
  let ?init2 = "fold (\<lambda>(key, val) config. AList.update key val config) (Defaults spec2) []"
  have keys: "stepKeys spec1 k = stepKeys spec2 k"
    and panics: "stepPanics spec1 k = stepPanics spec2 k" for k
    using prefixes excludes same_map_map_of [OF renamed]
    by (simp_all add: same_map_def stepKeys_cong [of spec1 spec2])
  have ow: "overwrite spec1 = overwrite spec2"
    by (simp add: overwrite_def keys)
  have init: "map_of ?init1 = map_of ?init2"
    using defaults same_map_map_of [OF defaults] by (simp add: same_map_def map_of_defaults)
  have set_env: "set env1 = set env2"
    using env by (simp add: same_map_def)
  show ?thesis
  proof (cases spec1 env1 ?init1 rule: envLoop_cases)
    case panic
    then have "\<exists>(k, v)\<in>set env2. stepPanics spec2 k"
      by (simp add: set_env panics)
    then have "envLoop spec2 env2 ?init2 = Inl SliceBoundsOutOfRange"
      by (simp add: envLoop_Inl)
    with panic show ?thesis by (simp add: BuildProperties_def)
  next
    case (ok c1)
    then have no_panic: "\<not> (\<exists>(k, v)\<in>set env2. stepPanics spec2 k)"
      by (simp add: set_env panics)
    then obtain c2 where c2: "envLoop spec2 env2 ?init2 = Inr c2"
      and m2: "map_of c2 = fold (overwrite spec2) env2 (map_of ?init2)"
      by (cases spec2 env2 ?init2 rule: envLoop_cases) auto
    have commute: "overwrite spec1 x \<circ> overwrite spec1 y = overwrite spec1 y \<circ> overwrite spec1 x"
      if x: "x \<in> set env1" and y: "y \<in> set env1" for x y
    proof (cases "x = y")
      case True
      then show ?thesis by simp
    next
      case False
      from env have "inj_on fst (set env1)"
        by (simp add: same_map_def wf_map_def distinct_map)
      with False x y have ne: "fst x \<noteq> fst y" by (auto dest: inj_onD)
      from x y ok(1) have "\<not> stepPanics spec1 (fst x)" and "\<not> stepPanics spec1 (fst y)"
        by auto
      moreover from no_collision x y ne
      have "writtenKeys spec1 (fst x) \<inter> writtenKeys spec1 (fst y) = {}"
        by (cases x; cases y) fastforce
      ultimately have "stepKeys spec1 (fst x) \<inter> stepKeys spec1 (fst y) = {}"
        by (simp add: writtenKeys_stepKeys)
      then show ?thesis by (intro overwrite_commute) simp
    qed
    have "fold (overwrite spec1) env1 = fold (overwrite spec1) env2"
      using commute same_map_mset [OF env] by (rule fold_multiset_equiv)
    with ok(3) m2 have "map_of c1 = map_of c2"
      by (simp add: ow init)
    with ok(2) c2 show ?thesis by (simp add: BuildProperties_def)
  qed
qed


text \<open>
  An instance: the variable \<open>KAFKA_FOO\<close> matches both prefixes, which compute the same
  key; prefixes, renames, defaults and environment are visited in two different orders.
\<close>

theorem BuildProperties_deterministic_witness:
  "map_sum id map_of
     (BuildProperties
        \<lparr>Prefixes = [(''KAFKA'', True), (''KAF'', True)], Excludes = [''KAFKA_IGNORED''],
           Renamed = [(''ZK'', ''zookeeper.connect''), (''ID'', ''broker.id'')],
           Defaults = [(''a'', ''1''), (''b'', ''2'')]\<rparr>
        [(''KAFKA_FOO'', ''x''), (''ZK'', ''y'')])
   = map_sum id map_of
     (BuildProperties
        \<lparr>Prefixes = [(''KAF'', True), (''KAFKA'', True)], Excludes = [''KAFKA_IGNORED''],
           Renamed = [(''ID'', ''broker.id''), (''ZK'', ''zookeeper.connect'')],
           Defaults = [(''b'', ''2''), (''a'', ''1'')]\<rparr>
        [(''ZK'', ''y''), (''KAFKA_FOO'', ''x'')])
   \<and> BuildProperties
        \<lparr>Prefixes = [(''KAFKA'', True), (''KAF'', True)], Excludes = [''KAFKA_IGNORED''],
           Renamed = [(''ZK'', ''zookeeper.connect''), (''ID'', ''broker.id'')],
           Defaults = [(''a'', ''1''), (''b'', ''2'')]\<rparr>
        [(''KAFKA_FOO'', ''x''), (''ZK'', ''y'')]
     = Inr [(''a'', ''1''), (''b'', ''2''), (''kafka.foo'', ''x''), (''zookeeper.connect'', ''y'')]"
proof -
  let ?s1 = "\<lparr>Prefixes = [(''KAFKA'', True), (''KAF'', True)], Excludes = [''KAFKA_IGNORED''],
           Renamed = [(''ZK'', ''zookeeper.connect''), (''ID'', ''broker.id'')],
           Defaults = [(''a'', ''1''), (''b'', ''2'')]\<rparr>"
  let ?s2 = "\<lparr>Prefixes = [(''KAF'', True), (''KAFKA'', True)], Excludes = [''KAFKA_IGNORED''],
           Renamed = [(''ID'', ''broker.id''), (''ZK'', ''zookeeper.connect'')],
           Defaults = [(''b'', ''2''), (''a'', ''1'')]\<rparr>"
  let ?e1 = "[(''KAFKA_FOO'', ''x''), (''ZK'', ''y'')]"
  let ?e2 = "[(''ZK'', ''y''), (''KAFKA_FOO'', ''x'')]"
  have p: "same_map (Prefixes ?s1) (Prefixes ?s2)"
    by (auto simp add: same_map_def wf_map_def)
  have x: "Excludes ?s1 = Excludes ?s2"
    by simp
  have r: "same_map (Renamed ?s1) (Renamed ?s2)"
    by (auto simp add: same_map_def wf_map_def)
  have d: "same_map (Defaults ?s1) (Defaults ?s2)"
    by (auto simp add: same_map_def wf_map_def)
  have e: "same_map ?e1 ?e2"
    by (auto simp add: same_map_def wf_map_def)
  have w1: "writtenKeys ?s1 ''KAFKA_FOO'' = {''kafka.foo''}"
    by code_simp
  have w2: "writtenKeys ?s1 ''ZK'' = {''zookeeper.connect''}"
    by code_simp
  have n: "\<forall>(k1, v1)\<in>set ?e1. \<forall>(k2, v2)\<in>set ?e1.
         k1 \<noteq> k2 \<longrightarrow> writtenKeys ?s1 k1 \<inter> writtenKeys ?s1 k2 = {}"
    by (simp add: w1 w2)
  have v: "BuildProperties ?s1 ?e1
     = Inr [(''a'', ''1''), (''b'', ''2''), (''kafka.foo'', ''x''), (''zookeeper.connect'', ''y'')]"
    by code_simp
  show ?thesis
    using BuildProperties_deterministic_without_collisions [OF p x r d e n] v by simp
qed

text \<open>
  C4, as stated, fails: two variables of different prefixes write the key \<open>foo\<close>, and
  the value that stays is the one of the variable visited last.
\<close>

theorem BuildProperties_depends_on_range_order:
  "same_map [(''KAFKA_FOO'', ''1''), (''CONFLUENT_FOO'', ''2'')]
            [(''CONFLUENT_FOO'', ''2''), (''KAFKA_FOO'', ''1'')]
   \<and> BuildProperties
        \<lparr>Prefixes = [(''KAFKA'', False), (''CONFLUENT'', False)], Excludes = [],
           Renamed = [], Defaults = []\<rparr>
        [(''KAFKA_FOO'', ''1''), (''CONFLUENT_FOO'', ''2'')] = Inr [(''foo'', ''2'')]
   \<and> BuildProperties
        \<lparr>Prefixes = [(''KAFKA'', False), (''CONFLUENT'', False)], Excludes = [],
           Renamed = [], Defaults = []\<rparr>
        [(''CONFLUENT_FOO'', ''2''), (''KAFKA_FOO'', ''1'')] = Inr [(''foo'', ''1'')]"
proof -
  have "same_map [(''KAFKA_FOO'', ''1''), (''CONFLUENT_FOO'', ''2'')]
            [(''CONFLUENT_FOO'', ''2''), (''KAFKA_FOO'', ''1'')]"
    by (auto simp add: same_map_def wf_map_def)
  moreover have "BuildProperties
        \<lparr>Prefixes = [(''KAFKA'', False), (''CONFLUENT'', False)], Excludes = [],
           Renamed = [], Defaults = []\<rparr>
        [(''KAFKA_FOO'', ''1''), (''CONFLUENT_FOO'', ''2'')] = Inr [(''foo'', ''2'')]"
    by code_simp
  moreover have "BuildProperties
        \<lparr>Prefixes = [(''KAFKA'', False), (''CONFLUENT'', False)], Excludes = [],
           Renamed = [], Defaults = []\<rparr>
        [(''CONFLUENT_FOO'', ''2''), (''KAFKA_FOO'', ''1'')] = Inr [(''foo'', ''1'')]"
    by code_simp
  ultimately show ?thesis by blast
qed

section \<open>Renamed variables\<close>

text \<open>
  C6: for a variable whose name is in \<open>Renamed\<close>, the body of the loop stores the value
  of the variable under \<open>Renamed[name]\<close> and does nothing else, whatever \<open>Excludes\<close> and
  \<open>Prefixes\<close> hold: \<open>BuildProperties\<close> goes on behind the variable with the
  configuration built before it, updated at that one key. When no variable visited later
  writes the key \<open>Renamed[name]\<close>, the result holds the value of the variable there.
\<close>

theorem Renamed_takes_precedence:
  assumes "map_of (Renamed spec) name = Some newKey"
  shows "envStep spec name val config = Inr (AList.update newKey val config)
    \<and> BuildProperties spec (before @ (name, val) # after)
        = (case BuildProperties spec before of
             Inl e \<Rightarrow> Inl e
           | Inr c \<Rightarrow> envLoop spec after (AList.update newKey val c))
    \<and> ((\<forall>(k, v)\<in>set after. newKey \<notin> writtenKeys spec k) \<longrightarrow>
         BuildProperties spec (before @ (name, val) # after) = Inr result \<longrightarrow>
         map_of result newKey = Some val)"
proof -
  have step: "envStep spec name val c = Inr (AList.update newKey val c)" for c
    using assms by (rule envStep_Renamed)
  have loop: "BuildProperties spec (before @ (name, val) # after)
        = (case BuildProperties spec before of
             Inl e \<Rightarrow> Inl e
           | Inr c \<Rightarrow> envLoop spec after (AList.update newKey val c))"
    by (simp add: BuildProperties_def envLoop_append step split: sum.splits)
  have "map_of result newKey = Some val"
    if others: "\<forall>(k, v)\<in>set after. newKey \<notin> writtenKeys spec k"
      and res: "BuildProperties spec (before @ (name, val) # after) = Inr result"
  proof -
    from res loop obtain c where rest: "envLoop spec after (AList.update newKey val c) = Inr result"
      by (auto split: sum.splits)
    then have "\<not> (\<exists>(k, v)\<in>set after. stepPanics spec k)"
      using envLoop_Inl [of spec after "AList.update newKey val c" SliceBoundsOutOfRange]
      by simp
    with others have "\<forall>(k, v)\<in>set after. newKey \<notin> stepKeys spec k"
      by (fastforce simp add: writtenKeys_stepKeys)
    then have "fold (overwrite spec) after (map_of (AList.update newKey val c)) newKey
                 = map_of (AList.update newKey val c) newKey"
      by (rule fold_overwrite_other)
    with envLoop_Inr [OF rest] show ?thesis
      by (simp add: update_conv')
  qed
  with step loop show ?thesis by blast
qed

text \<open>
  An instance: \<open>KAFKA_IGNORED\<close> is renamed, and it is excluded and matches the prefix too.
\<close>

theorem Renamed_takes_precedence_witness:
  "map_of (Renamed \<lparr>Prefixes = [(''KAFKA'', False)], Excludes = [''KAFKA_IGNORED''],
                     Renamed = [(''KAFKA_IGNORED'', ''kept.after.all'')], Defaults = []\<rparr>)
     ''KAFKA_IGNORED'' = Some ''kept.after.all''
   \<and> writtenKeys
         \<lparr>Prefixes = [(''KAFKA'', False)], Excludes = [''KAFKA_IGNORED''],
            Renamed = [(''KAFKA_IGNORED'', ''kept.after.all'')], Defaults = []\<rparr>
         ''KAFKA_BAR'' = {''bar''}
   \<and> BuildProperties
        \<lparr>Prefixes = [(''KAFKA'', False)], Excludes = [''KAFKA_IGNORED''],
           Renamed = [(''KAFKA_IGNORED'', ''kept.after.all'')], Defaults = []\<rparr>
        [(''KAFKA_FOO'', ''foo''), (''KAFKA_IGNORED'', ''v''), (''KAFKA_BAR'', ''bar'')]
      = Inr [(''foo'', ''foo''), (''kept.after.all'', ''v''), (''bar'', ''bar'')]
   \<and> map_of [(''foo'', ''foo''), (''kept.after.all'', ''v''), (''bar'', ''bar'')]
        ''kept.after.all'' = Some ''v''"
proof -
  let ?s = "\<lparr>Prefixes = [(''KAFKA'', False)], Excludes = [''KAFKA_IGNORED''],
              Renamed = [(''KAFKA_IGNORED'', ''kept.after.all'')], Defaults = []\<rparr>"
  let ?r = "[(''foo'', ''foo''), (''kept.after.all'', ''v''), (''bar'', ''bar'')]"
  have r: "map_of (Renamed ?s) ''KAFKA_IGNORED'' = Some ''kept.after.all''"
    by simp
  have w: "writtenKeys ?s ''KAFKA_BAR'' = {''bar''}"
    by code_simp
  have o: "\<forall>(k, v)\<in>set [(''KAFKA_BAR'', ''bar'')]. ''kept.after.all'' \<notin> writtenKeys ?s k"
    by (simp add: w)
  have b: "BuildProperties ?s
        [(''KAFKA_FOO'', ''foo''), (''KAFKA_IGNORED'', ''v''), (''KAFKA_BAR'', ''bar'')] = Inr ?r"
    by code_simp
  from Renamed_takes_precedence [OF r, of "''v''" "[]" "[(''KAFKA_FOO'', ''foo'')]"
      "[(''KAFKA_BAR'', ''bar'')]" ?r] o b
  have "map_of ?r ''kept.after.all'' = Some ''v''"
    by simp
  with r w b show ?thesis by blast
qed

section \<open>Reading a written configuration back\<close>

text \<open>
  C5, as the code has it: \<open>writeConfig\<close> writes keys and values as they are. When no key
  and no value of the mapping that \<open>BuildProperties\<close> returns holds a \<open>=\<close> or a newline
  (and the time stamp holds no newline), the lines behind the heritage line, parsed as
  \<open>key=value\<close> pairs by \<open>ListToMap\<close>, give the mapping back.
\<close>

theorem written_config_reads_back:
  assumes "BuildProperties spec environment = Inr config"
    and "\<forall>(k, v)\<in>set config. CHR ''='' \<notin> set k \<and> newline \<notin> set k
           \<and> CHR ''='' \<notin> set v \<and> newline \<notin> set v"
    and "newline \<notin> set now"
  shows "map_sum id (\<lambda>out. map_of (ListToMap (tl (Split out [newline]))))
           (writeConfig bufWrite now [] config) = Inr (map_of config)"
proof -
  from assms(1) have "distinct (map fst config)"
    by (rule BuildProperties_distinct)
  from parse_written [OF assms(2) assms(3) this] show ?thesis
    by auto
qed

theorem written_config_reads_back_witness:
  "BuildProperties
     \<lparr>Prefixes = [(''KAFKA'', False)], Excludes = [], Renamed = [],
        Defaults = [(''bootstrap.servers'', ''unknown'')]\<rparr>
     [(''KAFKA_FOO_BAR'', ''with dash'')]
     = Inr [(''bootstrap.servers'', ''unknown''), (''foo.bar'', ''with dash'')]
   \<and> map_sum id (\<lambda>out. map_of (ListToMap (tl (Split out [newline]))))
        (writeConfig bufWrite ''T'' []
           [(''bootstrap.servers'', ''unknown''), (''foo.bar'', ''with dash'')])
     = Inr (map_of [(''bootstrap.servers'', ''unknown''), (''foo.bar'', ''with dash'')])"
proof -
  let ?s = "\<lparr>Prefixes = [(''KAFKA'', False)], Excludes = [], Renamed = [],
        Defaults = [(''bootstrap.servers'', ''unknown'')]\<rparr>"
  let ?c = "[(''bootstrap.servers'', ''unknown''), (''foo.bar'', ''with dash'')]"
  have b: "BuildProperties ?s [(''KAFKA_FOO_BAR'', ''with dash'')] = Inr ?c"
    by code_simp
  have c: "\<forall>(k, v)\<in>set ?c. CHR ''='' \<notin> set k \<and> newline \<notin> set k
           \<and> CHR ''='' \<notin> set v \<and> newline \<notin> set v"
    by (simp add: newline_def)
  have n: "newline \<notin> set ''T''"
    by (simp add: newline_def)
  from written_config_reads_back [OF b c n] b show ?thesis
    by blast
qed

text \<open>
  C5, as stated, fails: a default value with a \<open>=\<close> gives a line of three parts, which
  the parser drops, and the value of a variable with a newline is cut into two lines.
\<close>

theorem written_config_not_read_back:
  "BuildProperties
     \<lparr>Prefixes = [(''KAFKA'', False)], Excludes = [], Renamed = [],
        Defaults = [(''k'', ''a=b'')]\<rparr>
     [(''KAFKA_FOO'', [CHR ''c'', newline, CHR ''d''])]
     = Inr [(''k'', ''a=b''), (''foo'', [CHR ''c'', newline, CHR ''d''])]
   \<and> writeConfig bufWrite ''T'' [] [(''k'', ''a=b''), (''foo'', [CHR ''c'', newline, CHR ''d''])]
     = Inr (formatHeritage ''T'' @ [newline] @ ''foo=c'' @ [newline] @ ''d'' @ [newline]
              @ ''k=a=b'' @ [newline])
   \<and> ListToMap (tl (Split (formatHeritage ''T'' @ [newline] @ ''foo=c'' @ [newline] @ ''d''
                              @ [newline] @ ''k=a=b'' @ [newline]) [newline]))
     = [(''foo'', ''c'')]
   \<and> map_of [(''foo'', ''c'')] \<noteq> map_of [(''k'', ''a=b''), (''foo'', [CHR ''c'', newline, CHR ''d''])]"
proof -
  have "BuildProperties
     \<lparr>Prefixes = [(''KAFKA'', False)], Excludes = [], Renamed = [],
        Defaults = [(''k'', ''a=b'')]\<rparr>
     [(''KAFKA_FOO'', [CHR ''c'', newline, CHR ''d''])]
     = Inr [(''k'', ''a=b''), (''foo'', [CHR ''c'', newline, CHR ''d''])]"
    by code_simp
  moreover have "writeConfig bufWrite ''T'' []
       [(''k'', ''a=b''), (''foo'', [CHR ''c'', newline, CHR ''d''])]
     = Inr (formatHeritage ''T'' @ [newline] @ ''foo=c'' @ [newline] @ ''d'' @ [newline]
              @ ''k=a=b'' @ [newline])"
    by code_simp
  moreover have "ListToMap (tl (Split (formatHeritage ''T'' @ [newline] @ ''foo=c'' @ [newline]
                              @ ''d'' @ [newline] @ ''k=a=b'' @ [newline]) [newline]))
     = [(''foo'', ''c'')]"
    by code_simp
  moreover have "map_of [(''foo'', ''c'')]
      \<noteq> map_of [(''k'', ''a=b''), (''foo'', [CHR ''c'', newline, CHR ''d''])]"
  proof
    assume "map_of [(''foo'', ''c'')]
      = map_of [(''k'', ''a=b''), (''foo'', [CHR ''c'', newline, CHR ''d''])]"
    then have "map_of [(''foo'', ''c'')] ''k''
      = map_of [(''k'', ''a=b''), (''foo'', [CHR ''c'', newline, CHR ''d''])] ''k''"
      by (rule fun_cong)
    then show False by simp
  qed
  ultimately show ?thesis by blast
qed

end
